theory Spec2Isabelle
  imports Main "HOL-Library.AList"
begin

section \<open>Values and text of the question bank\<close>

text \<open>
  The bank is parsed JSON. The script looks at an option value \<open>v\<close> in two ways only:
  its truth value (\<^verbatim>\<open>if v and ...\<close>) and its rendering \<^verbatim>\<open>str(v)\<close>; of \<^verbatim>\<open>correcta\<close> it
  asks \<^verbatim>\<open>isinstance(corr, str)\<close>. \<open>PNone\<close> is a missing key or JSON null
  (\<^verbatim>\<open>q.get(...)\<close> gives \<^verbatim>\<open>None\<close> for both), \<open>PStr\<close> a JSON string, and
  \<open>POther t r\<close> any other JSON value (number, boolean, array, object) with truth value
  \<open>t\<close> and rendering \<open>r\<close>.
\<close>

datatype pyval = PNone | PStr string | POther bool string

fun truthy :: "pyval \<Rightarrow> bool" where
  "truthy PNone = False"
| "truthy (PStr s) = (s \<noteq> [])"
| "truthy (POther t r) = t"

fun py_str :: "pyval \<Rightarrow> string" where
  "py_str PNone = ''None''"
| "py_str (PStr s) = s"
| "py_str (POther t r) = r"

text \<open>
  A Python \<^verbatim>\<open>str\<close> is held as the list of the bytes of its UTF-8 encoding, so
  equality and emptiness are those of the text, and the letters \<^verbatim>\<open>"A"\<close>,
  \<^verbatim>\<open>"B"\<close>, \<^verbatim>\<open>"C"\<close> are \<open>''A''\<close>, \<open>''B''\<close>, \<open>''C''\<close>.
  \<^verbatim>\<open>str.strip\<close>, \<^verbatim>\<open>str.upper\<close> and \<^verbatim>\<open>str.lower\<close> are builtins of
  Python, not code of the script, and they work on all of Unicode (white space such as
  U+00A0, accented letters, case mappings that change the length). They are taken as a
  parameter: every function below that calls them takes the three of them, as a record
  \<open>P\<close>, and every statement about such a function holds for every \<open>P\<close>.
\<close>

record py_text =
  py_strip :: "string \<Rightarrow> string"
  py_upper :: "string \<Rightarrow> string"
  py_lower :: "string \<Rightarrow> string"

section \<open>The bank\<close>

record question =
  q_n :: int
  lote_id :: int
  pregunta :: string
  respuesta_a :: pyval
  respuesta_b :: pyval
  respuesta_c :: pyval
  correcta :: pyval

record lote =
  lote_lote_id :: int
  preguntas :: "question list"

text \<open>\<^verbatim>\<open>flatten_questions\<close>: every question of every batch, tagged with the batch's id.\<close>

definition flatten_questions :: "lote list \<Rightarrow> question list" where
  "flatten_questions lotes =
     concat (map (\<lambda>l. map (\<lambda>q. q\<lparr>lote_id := lote_lote_id l\<rparr>) (preguntas l)) lotes)"

section \<open>Session state\<close>

record answer =
  attempts :: int
  correct :: bool
  selected :: "string option"
  answer_lote_id :: int

text \<open>
  \<^verbatim>\<open>answers\<close> is a Python dict: an association list in insertion order, read with
  \<open>map_of\<close> and written with \<open>AList.update\<close> (an existing key keeps its place, a new
  one goes to the end).
\<close>

record state =
  mode :: string
  show_correct_between :: bool
  current_index :: int
  answers :: "(int \<times> answer) list"
  locked :: "int set"
  last_feedback :: "string option"

definition init_state :: state where
  "init_state = \<lparr>mode = ''full'', show_correct_between = False, current_index = 0,
     answers = [], locked = {}, last_feedback = None\<rparr>"

text \<open>\<^verbatim>\<open>a.get("attempts", 0)\<close> and \<^verbatim>\<open>a.get("correct", False)\<close> on
  \<^verbatim>\<open>answers.get(n, {})\<close>.\<close>

definition get_attempts :: "answer option \<Rightarrow> int" where
  "get_attempts r = (case r of None \<Rightarrow> 0 | Some a \<Rightarrow> attempts a)"

definition get_correct :: "answer option \<Rightarrow> bool" where
  "get_correct r = (case r of None \<Rightarrow> False | Some a \<Rightarrow> correct a)"

section \<open>Utility functions\<close>

text \<open>\<^verbatim>\<open>int(mode.replace("lote", ""))\<close>, called only with one of the three batch modes.\<close>

definition lote_target :: "string \<Rightarrow> int" where
  "lote_target m = (if m = ''lote1'' then 1 else if m = ''lote2'' then 2 else 3)"

definition failed_ids :: "state \<Rightarrow> int list" where
  "failed_ids s =
     map fst (filter (\<lambda>(k, a). 1 \<le> attempts a \<and> \<not> correct a) (answers s))"

definition get_questions_for_mode :: "question list \<Rightarrow> state \<Rightarrow> string \<Rightarrow> question list" where
  "get_questions_for_mode all_questions s m =
     (if m = ''full'' then all_questions
      else if m \<in> set [''lote1'', ''lote2'', ''lote3''] then
        filter (\<lambda>q. lote_id q = lote_target m) all_questions
      else if m = ''review'' then
        filter (\<lambda>q. q_n q \<in> set (failed_ids s)) all_questions
      else [])"

text \<open>The loop over \<^verbatim>\<open>mapping.items()\<close>; falling out of it reaches \<^verbatim>\<open>return "A"\<close>.\<close>

fun mapping_loop :: "py_text \<Rightarrow> (string \<times> pyval) list \<Rightarrow> string \<Rightarrow> string" where
  "mapping_loop P [] corr = ''A''"
| "mapping_loop P ((k, v) # kvs) corr =
     (if truthy v \<and>
         py_lower P (py_strip P (py_str v)) = py_lower P (py_strip P corr) then k
      else mapping_loop P kvs corr)"

definition get_correct_letter :: "py_text \<Rightarrow> question \<Rightarrow> string" where
  "get_correct_letter P q =
     (case correcta q of
        PStr corr \<Rightarrow>
          (let corr_up = py_upper P (py_strip P corr) in
           if corr_up \<in> set [''A'', ''B'', ''C''] then corr_up
           else mapping_loop P
                  [(''A'', respuesta_a q), (''B'', respuesta_b q), (''C'', respuesta_c q)] corr)
      | _ \<Rightarrow> ''A'')"

definition is_lot_completed :: "question list \<Rightarrow> state \<Rightarrow> int \<Rightarrow> bool" where
  "is_lot_completed all_questions s lid =
     (let lot_questions = filter (\<lambda>q. lote_id q = lid) all_questions in
      if lot_questions = [] then False
      else list_all (\<lambda>q. get_correct (map_of (answers s) (q_n q))) lot_questions)"

text \<open>
  \<^verbatim>\<open>totals\<close>, without \<^verbatim>\<open>progress\<close> (a floating-point quotient that no property below
  reads).
\<close>

record totals_result =
  t_attempted :: int
  t_correct :: int
  t_wrong :: int
  t_total :: int
  t_completed_lots :: int

definition totals :: "question list \<Rightarrow> state \<Rightarrow> totals_result" where
  "totals all_questions s =
     (let attempted = int (length (filter (\<lambda>(k, a). 1 \<le> attempts a) (answers s)));
          corr = int (length (filter (\<lambda>(k, a). correct a) (answers s)))
      in \<lparr>t_attempted = attempted, t_correct = corr, t_wrong = attempted - corr,
          t_total = int (length all_questions),
          t_completed_lots =
            int (length (filter (is_lot_completed all_questions s) [1, 2, 3]))\<rparr>)"

definition reset_results :: "state \<Rightarrow> state" where
  "reset_results s = s\<lparr>answers := [], locked := {}, current_index := 0, last_feedback := None\<rparr>"

definition next_question :: "state \<Rightarrow> state" where
  "next_question s = s\<lparr>current_index := current_index s + 1, last_feedback := None\<rparr>"

definition prev_question :: "state \<Rightarrow> state" where
  "prev_question s = s\<lparr>current_index := max 0 (current_index s - 1), last_feedback := None\<rparr>"

definition is_locked :: "state \<Rightarrow> int \<Rightarrow> bool" where
  "is_locked s k = (k \<in> locked s)"

section \<open>The submit handler\<close>

text \<open>
  Lines 248 to 278, for the question \<open>q\<close> on display and the radio's \<open>choice\<close>. The
  feedback calls draw on the page only; \<^verbatim>\<open>st.rerun()\<close> is part of \<open>script_run\<close> below.
  \<open>prior_record\<close> is \<^verbatim>\<open>answers.get(q["n"], {"attempts": 0, "correct": False, ...})\<close>.
\<close>

definition prior_record :: "question \<Rightarrow> state \<Rightarrow> answer" where
  "prior_record q s =
     (case map_of (answers s) (q_n q) of
        Some r \<Rightarrow> r
      | None \<Rightarrow> \<lparr>attempts = 0, correct = False, selected = None,
                  answer_lote_id = lote_id q\<rparr>)"

definition submit :: "py_text \<Rightarrow> question \<Rightarrow> string \<Rightarrow> state \<Rightarrow> state" where
  "submit P q choice s =
     (let correct_letter = get_correct_letter P q;
          a = prior_record q s
      in if correct a then
           next_question
             (s\<lparr>answers := AList.update (q_n q) (a\<lparr>selected := Some choice\<rparr>) (answers s)\<rparr>)
         else
           (let a1 = a\<lparr>attempts := attempts a + 1, selected := Some choice\<rparr> in
            if choice = correct_letter then
              next_question
                (s\<lparr>answers := AList.update (q_n q) (a1\<lparr>correct := True\<rparr>) (answers s)\<rparr>)
            else
              next_question
                (s\<lparr>answers := AList.update (q_n q) a1 (answers s),
                   locked := insert (q_n q) (locked s)\<rparr>)))"

section \<open>One run of the script\<close>

text \<open>
  Streamlit runs the script from top to bottom once for each interaction, and once more
  after each \<^verbatim>\<open>st.rerun()\<close>. An interaction is one of the following; \<open>Rerun\<close> is a run
  with no widget touched.
\<close>

datatype mode_label = Completo | Lote1 | Lote2 | Lote3 | Revision

fun mode_map :: "mode_label \<Rightarrow> string" where
  "mode_map Completo = ''full''"
| "mode_map Lote1 = ''lote1''"
| "mode_map Lote2 = ''lote2''"
| "mode_map Lote3 = ''lote3''"
| "mode_map Revision = ''review''"

datatype event =
    Rerun
  | SelectMode mode_label
  | SetShowCorrect bool
  | ClickReset
  | ClickAnterior
  | ClickResponder string
  | ClickSiguiente

definition known_modes :: "string list" where
  "known_modes = [''full'', ''lote1'', ''lote2'', ''lote3'', ''review'']"

text \<open>Python's \<^verbatim>\<open>questions[i]\<close>: a negative index counts from the end, anything out of
  range raises.\<close>

definition py_index :: "'a list \<Rightarrow> int \<Rightarrow> 'a option" where
  "py_index xs i =
     (let len = int (length xs) in
      if 0 \<le> i \<and> i < len then Some (xs ! nat i)
      else if - len \<le> i \<and> i < 0 then Some (xs ! nat (len + i))
      else None)"

text \<open>The clamp of line 209, skipped when \<^verbatim>\<open>st.stop()\<close> ends the run on an empty list.\<close>

definition clamp_index :: "question list \<Rightarrow> state \<Rightarrow> state" where
  "clamp_index all_questions s =
     (let questions = get_questions_for_mode all_questions s (mode s) in
      if questions = [] then s
      else s\<lparr>current_index := min (current_index s) (int (length questions) - 1)\<rparr>)"

text \<open>The question on display: none when the list is empty or the index raises.\<close>

definition shown_question :: "question list \<Rightarrow> state \<Rightarrow> question option" where
  "shown_question all_questions s =
     (let questions = get_questions_for_mode all_questions s (mode s) in
      if questions = [] then None
      else py_index questions (min (current_index s) (int (length questions) - 1)))"

text \<open>\<^verbatim>\<open>disabled=(locked and not prev_answer.get("correct", False))\<close> of the Responder
  button.\<close>

definition responder_disabled :: "question \<Rightarrow> state \<Rightarrow> bool" where
  "responder_disabled q s =
     (q_n q \<in> locked s \<and> \<not> get_correct (map_of (answers s) (q_n q)))"

text \<open>
  A run with no interaction, which is also what \<^verbatim>\<open>st.rerun()\<close> starts. An unknown
  \<^verbatim>\<open>mode\<close> raises KeyError in the selectbox's \<^verbatim>\<open>index=\<close> (line 138) and the run ends
  there.
\<close>

definition idle_run :: "question list \<Rightarrow> state \<Rightarrow> state" where
  "idle_run all_questions s =
     (if mode s \<notin> set known_modes then s else clamp_index all_questions s)"

definition question_flow :: "py_text \<Rightarrow> question list \<Rightarrow> event \<Rightarrow> state \<Rightarrow> state" where
  "question_flow P all_questions ev s =
     (let s3 = clamp_index all_questions s in
      case shown_question all_questions s of
        None \<Rightarrow> s3
      | Some q \<Rightarrow>
          (case ev of
             ClickAnterior \<Rightarrow> idle_run all_questions (prev_question s3)
           | ClickResponder choice \<Rightarrow>
               if responder_disabled q s3 then s3
               else idle_run all_questions (submit P q choice s3)
           | ClickSiguiente \<Rightarrow> idle_run all_questions (next_question s3)
           | _ \<Rightarrow> s3))"

definition script_run :: "py_text \<Rightarrow> question list \<Rightarrow> event \<Rightarrow> state \<Rightarrow> state" where
  "script_run P all_questions ev s =
     (if mode s \<notin> set known_modes then s
      else
        (let s1 = (case ev of
                     SelectMode l \<Rightarrow>
                       if mode_map l \<noteq> mode s
                       then s\<lparr>mode := mode_map l, current_index := 0, last_feedback := None\<rparr>
                       else s
                   | _ \<Rightarrow> s);
             s2 = (case ev of
                     SetShowCorrect b \<Rightarrow> s1\<lparr>show_correct_between := b\<rparr>
                   | _ \<Rightarrow> s1)
         in if ev = ClickReset then idle_run all_questions (reset_results s2)
            else question_flow P all_questions ev s2))"

fun run :: "py_text \<Rightarrow> question list \<Rightarrow> event list \<Rightarrow> state \<Rightarrow> state" where
  "run P all_questions [] s = s"
| "run P all_questions (ev # evs) s =
     run P all_questions evs (script_run P all_questions ev s)"

text \<open>The states a session can be in: those some sequence of interactions leads to from
  the defaults of \<^verbatim>\<open>_init_state\<close>.\<close>

inductive reachable :: "py_text \<Rightarrow> question list \<Rightarrow> state \<Rightarrow> bool"
  for P and all_questions where
  reachable_init: "reachable P all_questions init_state"
| reachable_step:
    "reachable P all_questions s \<Longrightarrow>
     reachable P all_questions (script_run P all_questions ev s)"

section \<open>The correct letter as the specification words it\<close>

text \<open>
  \<open>reference_letter\<close> follows the specification's three steps: a letter A, B or C up to
  case and surrounding white space; else the first option, in the order A, B, C, whose
  text equals \<^verbatim>\<open>correcta\<close> up to case and surrounding white space; else A. An option
  that is missing has no text; a \<^verbatim>\<open>correcta\<close> that is not a string equals no text.
  \<open>guarded_letter\<close> differs in one place: an option counts only if its value is truthy.
  Equality up to case and surrounding white space is equality after \<^verbatim>\<open>strip\<close> and
  \<^verbatim>\<open>lower\<close>, as the script compares option texts.
\<close>

definition ci_equal :: "py_text \<Rightarrow> string \<Rightarrow> string \<Rightarrow> bool" where
  "ci_equal P x y = (py_lower P (py_strip P x) = py_lower P (py_strip P y))"

fun option_text :: "pyval \<Rightarrow> string option" where
  "option_text PNone = None"
| "option_text (PStr t) = Some t"
| "option_text (POther t r) = Some r"

definition text_matches :: "py_text \<Rightarrow> pyval \<Rightarrow> string \<Rightarrow> bool" where
  "text_matches P v corr =
     (case option_text v of None \<Rightarrow> False | Some t \<Rightarrow> ci_equal P t corr)"

definition reference_letter :: "py_text \<Rightarrow> question \<Rightarrow> string" where
  "reference_letter P q =
     (case correcta q of
        PStr corr \<Rightarrow>
          if ci_equal P corr ''A'' \<or> ci_equal P corr ''B'' \<or> ci_equal P corr ''C''
          then py_upper P (py_strip P corr)
          else if text_matches P (respuesta_a q) corr then ''A''
          else if text_matches P (respuesta_b q) corr then ''B''
          else if text_matches P (respuesta_c q) corr then ''C''
          else ''A''
      | _ \<Rightarrow> ''A'')"

definition guarded_letter :: "py_text \<Rightarrow> question \<Rightarrow> string" where
  "guarded_letter P q =
     (case correcta q of
        PStr corr \<Rightarrow>
          if ci_equal P corr ''A'' \<or> ci_equal P corr ''B'' \<or> ci_equal P corr ''C''
          then py_upper P (py_strip P corr)
          else if truthy (respuesta_a q) \<and> text_matches P (respuesta_a q) corr then ''A''
          else if truthy (respuesta_b q) \<and> text_matches P (respuesta_b q) corr then ''B''
          else if truthy (respuesta_c q) \<and> text_matches P (respuesta_c q) corr then ''C''
          else ''A''
      | _ \<Rightarrow> ''A'')"

text \<open>
  The script tests for a letter with \<^verbatim>\<open>upper\<close> and compares texts with
  \<^verbatim>\<open>lower\<close>. \<open>letters_fold_alike\<close> says that the two agree on the letters: a
  text is A in upper case exactly if in lower case it is what A is in lower case, and
  the same for B and C. Python's builtins have this property: the only texts whose
  upper case is A are \<^verbatim>\<open>"a"\<close> and \<^verbatim>\<open>"A"\<close>, and they are the only ones whose
  lower case is \<^verbatim>\<open>"a"\<close>.
\<close>

definition letters_fold_alike :: "py_text \<Rightarrow> bool" where
  "letters_fold_alike P =
     ((\<forall>t. (py_upper P t = ''A'') = (py_lower P t = py_lower P (py_strip P ''A''))) \<and>
      (\<forall>t. (py_upper P t = ''B'') = (py_lower P t = py_lower P (py_strip P ''B''))) \<and>
      (\<forall>t. (py_upper P t = ''C'') = (py_lower P t = py_lower P (py_strip P ''C''))))"

section \<open>The session invariant\<close>

text \<open>
  Keys of \<open>answers\<close> are distinct (it is a dict), every stored record has been attempted,
  and the locked set holds exactly the keys of the attempted, incorrect records.
\<close>

definition locked_agrees :: "state \<Rightarrow> bool" where
  "locked_agrees s =
     (\<forall>k. k \<in> locked s \<longleftrightarrow>
        (\<exists>a. map_of (answers s) k = Some a \<and> 1 \<le> attempts a \<and> \<not> correct a))"

definition session_inv :: "state \<Rightarrow> bool" where
  "session_inv s =
     (distinct (map fst (answers s)) \<and>
      (\<forall>k a. map_of (answers s) k = Some a \<longrightarrow> 1 \<le> attempts a) \<and>
      locked_agrees s)"

section \<open>The builtins on ASCII text\<close>

text \<open>
  What \<^verbatim>\<open>strip\<close>, \<^verbatim>\<open>upper\<close> and \<^verbatim>\<open>lower\<close> do to a text of ASCII
  characters only: \<^verbatim>\<open>strip\<close> removes, at both ends, the characters Python counts
  as white space (codes 9 to 13, 28 to 31 and 32); \<^verbatim>\<open>upper\<close> and \<^verbatim>\<open>lower\<close> move
  the 26 letters and keep every other character. \<open>ascii_text\<close> serves to run the
  examples below, whose texts are all ASCII; on a text with other bytes it is not
  Python's behaviour, and no general statement is made through it.
\<close>

definition ascii_space :: "char \<Rightarrow> bool" where
  "ascii_space c = ((of_char c :: nat) \<in> set [9, 10, 11, 12, 13, 28, 29, 30, 31, 32])"

definition ascii_strip :: "string \<Rightarrow> string" where
  "ascii_strip s = rev (dropWhile ascii_space (rev (dropWhile ascii_space s)))"

definition ascii_upper_char :: "char \<Rightarrow> char" where
  "ascii_upper_char c =
     (let k = (of_char c :: nat) in if 97 \<le> k \<and> k \<le> 122 then char_of (k - 32) else c)"

definition ascii_lower_char :: "char \<Rightarrow> char" where
  "ascii_lower_char c =
     (let k = (of_char c :: nat) in if 65 \<le> k \<and> k \<le> 90 then char_of (k + 32) else c)"

definition ascii_upper :: "string \<Rightarrow> string" where
  "ascii_upper s = map ascii_upper_char s"

definition ascii_lower :: "string \<Rightarrow> string" where
  "ascii_lower s = map ascii_lower_char s"

definition ascii_text :: py_text where
  "ascii_text = \<lparr>py_strip = ascii_strip, py_upper = ascii_upper, py_lower = ascii_lower\<rparr>"

section \<open>A bank of three questions\<close>

text \<open>
  One batch, questions 1, 2 and 3 with correct letters A, B and C: the first names the
  letter, the second names it in lower case with white space around it, the third gives
  the text of its option.
\<close>

definition ex_q1 :: question where
  "ex_q1 = \<lparr>q_n = 1, lote_id = 0, pregunta = ''uno?'', respuesta_a = PStr ''si'',
     respuesta_b = PStr ''no'', respuesta_c = PStr ''quiza'', correcta = PStr ''A''\<rparr>"

definition ex_q2 :: question where
  "ex_q2 = \<lparr>q_n = 2, lote_id = 0, pregunta = ''dos?'', respuesta_a = PStr ''si'',
     respuesta_b = PStr ''no'', respuesta_c = PStr ''quiza'', correcta = PStr '' b ''\<rparr>"

definition ex_q3 :: question where
  "ex_q3 = \<lparr>q_n = 3, lote_id = 0, pregunta = ''tres?'', respuesta_a = PStr ''si'',
     respuesta_b = PStr ''no'', respuesta_c = PStr ''Quiza'', correcta = PStr ''quiza''\<rparr>"

definition ex_bank :: "question list" where
  "ex_bank = flatten_questions [\<lparr>lote_lote_id = 1, preguntas = [ex_q1, ex_q2, ex_q3]\<rparr>]"

text \<open>A question whose second option is the empty string, with an empty \<^verbatim>\<open>correcta\<close>.\<close>

definition ex_q_empty :: question where
  "ex_q_empty = \<lparr>q_n = 7, lote_id = 1, pregunta = ''p'', respuesta_a = PStr ''x'',
     respuesta_b = PStr [], respuesta_c = PStr ''y'', correcta = PStr []\<rparr>"

text \<open>
  Two sessions on that bank. In \<open>ex_state\<close> question 1 was answered with its letter
  and question 2 with a wrong one; in \<open>ex_done\<close> all three were answered with their
  letters.
\<close>

definition ex_state :: state where
  "ex_state = run ascii_text ex_bank [ClickResponder ''A'', ClickResponder ''A''] init_state"

definition ex_done :: state where
  "ex_done =
     run ascii_text ex_bank
       [ClickResponder ''A'', ClickResponder ''B'', ClickResponder ''C''] init_state"

text \<open>
  \<open>ex_locked\<close>: question 1 answered with a wrong letter, then back to it, Responder
  clicked again, and the mode changed to review.
\<close>

definition ex_locked :: state where
  "ex_locked =
     run ascii_text ex_bank [ClickAnterior, ClickResponder ''A'', SelectMode Revision]
       (script_run ascii_text ex_bank (ClickResponder ''B'') init_state)"

section \<open>Text: letters up to case\<close>

lemma char_of_eq_lit: "k < 256 \<Longrightarrow> (char_of (k::nat) = c) = (k = of_char c)"
  by (metis char_of_char of_char_of mod_less)

lemma char_eq_code: "(x = c) = ((of_char x :: nat) = of_char c)"
  by simp

lemma ascii_upper_char_A: "ascii_upper_char x = CHR ''A'' \<longleftrightarrow> ascii_lower_char x = CHR ''a''"
  unfolding ascii_upper_char_def ascii_lower_char_def Let_def
  by (auto simp: char_of_eq_lit char_eq_code [of x])

lemma ascii_upper_char_B: "ascii_upper_char x = CHR ''B'' \<longleftrightarrow> ascii_lower_char x = CHR ''b''"
  unfolding ascii_upper_char_def ascii_lower_char_def Let_def
  by (auto simp: char_of_eq_lit char_eq_code [of x])

lemma ascii_upper_char_C: "ascii_upper_char x = CHR ''C'' \<longleftrightarrow> ascii_lower_char x = CHR ''c''"
  unfolding ascii_upper_char_def ascii_lower_char_def Let_def
  by (auto simp: char_of_eq_lit char_eq_code [of x])

lemma ascii_upper_A: "ascii_upper t = ''A'' \<longleftrightarrow> ascii_lower t = ''a''"
  by (cases t) (auto simp: ascii_upper_def ascii_lower_def ascii_upper_char_A)

lemma ascii_upper_B: "ascii_upper t = ''B'' \<longleftrightarrow> ascii_lower t = ''b''"
  by (cases t) (auto simp: ascii_upper_def ascii_lower_def ascii_upper_char_B)

lemma ascii_upper_C: "ascii_upper t = ''C'' \<longleftrightarrow> ascii_lower t = ''c''"
  by (cases t) (auto simp: ascii_upper_def ascii_lower_def ascii_upper_char_C)

lemma ascii_lower_strip_A: "ascii_lower (ascii_strip ''A'') = ''a''"
  by code_simp

lemma ascii_lower_strip_B: "ascii_lower (ascii_strip ''B'') = ''b''"
  by code_simp

lemma ascii_lower_strip_C: "ascii_lower (ascii_strip ''C'') = ''c''"
  by code_simp

lemma letters_fold_alike_ascii: "letters_fold_alike ascii_text"
  by (simp add: letters_fold_alike_def ascii_text_def ascii_lower_strip_A ascii_lower_strip_B
      ascii_lower_strip_C ascii_upper_A ascii_upper_B ascii_upper_C)

lemma ci_equal_A:
  "letters_fold_alike P \<Longrightarrow> ci_equal P corr ''A'' \<longleftrightarrow> py_upper P (py_strip P corr) = ''A''"
  by (simp add: ci_equal_def letters_fold_alike_def)

lemma ci_equal_B:
  "letters_fold_alike P \<Longrightarrow> ci_equal P corr ''B'' \<longleftrightarrow> py_upper P (py_strip P corr) = ''B''"
  by (simp add: ci_equal_def letters_fold_alike_def)

lemma ci_equal_C:
  "letters_fold_alike P \<Longrightarrow> ci_equal P corr ''C'' \<longleftrightarrow> py_upper P (py_strip P corr) = ''C''"
  by (simp add: ci_equal_def letters_fold_alike_def)

lemma text_matches_truthy:
  "(truthy v \<and> text_matches P v corr) =
     (truthy v \<and> py_lower P (py_strip P (py_str v)) = py_lower P (py_strip P corr))"
  by (cases v) (simp_all add: text_matches_def ci_equal_def)

lemma get_correct_letter_range: "get_correct_letter P q \<in> {''A'', ''B'', ''C''}"
  by (cases "correcta q") (auto simp: get_correct_letter_def Let_def)

section \<open>What each operation leaves alone\<close>

lemma answers_next_question [simp]: "answers (next_question s) = answers s"
  and locked_next_question [simp]: "locked (next_question s) = locked s"
  and mode_next_question [simp]: "mode (next_question s) = mode s"
  by (simp_all add: next_question_def)

lemma answers_prev_question [simp]: "answers (prev_question s) = answers s"
  and locked_prev_question [simp]: "locked (prev_question s) = locked s"
  and mode_prev_question [simp]: "mode (prev_question s) = mode s"
  by (simp_all add: prev_question_def)

lemma answers_clamp_index [simp]: "answers (clamp_index qs s) = answers s"
  and locked_clamp_index [simp]: "locked (clamp_index qs s) = locked s"
  and mode_clamp_index [simp]: "mode (clamp_index qs s) = mode s"
  by (simp_all add: clamp_index_def Let_def)

lemma answers_idle_run [simp]: "answers (idle_run qs s) = answers s"
  and locked_idle_run [simp]: "locked (idle_run qs s) = locked s"
  and mode_idle_run [simp]: "mode (idle_run qs s) = mode s"
  by (simp_all add: idle_run_def)

section \<open>What the submit handler stores and locks\<close>

lemma answers_submit:
  "map_of (answers (submit P q c s)) =
     (map_of (answers s))(q_n q \<mapsto>
        (if correct (prior_record q s) then (prior_record q s)\<lparr>selected := Some c\<rparr>
         else if c = get_correct_letter P q then
           (prior_record q s)\<lparr>attempts := attempts (prior_record q s) + 1,
              selected := Some c, correct := True\<rparr>
         else (prior_record q s)\<lparr>attempts := attempts (prior_record q s) + 1,
                selected := Some c\<rparr>))"
  by (simp add: submit_def Let_def update_conv' prior_record_def split: option.splits)

lemma locked_submit:
  "locked (submit P q c s) =
     (if correct (prior_record q s) \<or> c = get_correct_letter P q then locked s
      else insert (q_n q) (locked s))"
  by (simp add: submit_def Let_def)

lemma distinct_submit:
  "distinct (map fst (answers s)) \<Longrightarrow> distinct (map fst (answers (submit P q c s)))"
  by (simp add: submit_def Let_def distinct_update)

lemma current_index_submit: "current_index (submit P q c s) = current_index s + 1"
  by (simp add: submit_def Let_def next_question_def)

section \<open>The invariant holds in every state a session reaches\<close>

lemma session_inv_cong:
  "answers s' = answers s \<Longrightarrow> locked s' = locked s \<Longrightarrow> session_inv s' = session_inv s"
  by (simp add: session_inv_def locked_agrees_def)

lemma session_inv_moves [simp]:
  "session_inv (idle_run qs s) = session_inv s"
  "session_inv (clamp_index qs s) = session_inv s"
  "session_inv (next_question s) = session_inv s"
  "session_inv (prev_question s) = session_inv s"
  by (rule session_inv_cong; simp)+

lemma session_inv_sidebar [simp]:
  "session_inv (s\<lparr>mode := m, current_index := i, last_feedback := f\<rparr>) = session_inv s"
  "session_inv (s\<lparr>show_correct_between := b\<rparr>) = session_inv s"
  by (simp_all add: session_inv_def locked_agrees_def)

lemma session_inv_init: "session_inv init_state"
  by (simp add: session_inv_def locked_agrees_def init_state_def)

lemma session_inv_reset: "session_inv (reset_results s)"
  by (simp add: session_inv_def locked_agrees_def reset_results_def)

lemma session_inv_submit:
  assumes inv: "session_inv s" and en: "\<not> responder_disabled q s"
  shows "session_inv (submit P q c s)"
proof -
  let ?k = "q_n q"
  from inv have d: "distinct (map fst (answers s))"
    and att: "\<And>k a. map_of (answers s) k = Some a \<Longrightarrow> 1 \<le> attempts a"
    and lk: "\<And>k. k \<in> locked s \<longleftrightarrow>
         (\<exists>a. map_of (answers s) k = Some a \<and> 1 \<le> attempts a \<and> \<not> correct a)"
    by (auto simp: session_inv_def locked_agrees_def simp del: map_of_eq_Some_iff)
  have fresh: "map_of (answers s) ?k = None \<or> correct (prior_record q s)"
  proof (cases "map_of (answers s) ?k")
    case (Some a)
    show ?thesis
    proof (cases "correct a")
      case False
      with Some att [OF Some] lk [of ?k] have "?k \<in> locked s" by auto
      with en Some False show ?thesis
        by (simp add: responder_disabled_def get_correct_def)
    qed (simp add: Some prior_record_def)
  qed simp
  have pr: "1 \<le> attempts (prior_record q s)" if "correct (prior_record q s)"
    using that att [of ?k] by (auto simp: prior_record_def split: option.splits)
  have np: "attempts (prior_record q s) = 0" if "map_of (answers s) ?k = None"
    using that by (simp add: prior_record_def)
  have nl: "?k \<notin> locked s" if "correct (prior_record q s)"
    using that lk [of ?k] by (auto simp: prior_record_def split: option.splits)
  have nl': "?k \<notin> locked s" if "map_of (answers s) ?k = None"
    using that lk [of ?k] by simp
  have "distinct (map fst (answers (submit P q c s)))"
    using d by (rule distinct_submit)
  moreover have "1 \<le> attempts a" if "map_of (answers (submit P q c s)) k = Some a" for k a
    using that fresh pr np att [of k a]
    by (auto simp: answers_submit split: if_splits)
  moreover have "k \<in> locked (submit P q c s) \<longleftrightarrow>
      (\<exists>a. map_of (answers (submit P q c s)) k = Some a \<and> 1 \<le> attempts a \<and> \<not> correct a)" for k
    using fresh pr np nl nl' lk [of k]
    by (auto simp: answers_submit locked_submit split: if_splits)
  ultimately show ?thesis
    unfolding session_inv_def locked_agrees_def by (simp del: map_of_eq_Some_iff)
qed

lemma session_inv_question_flow:
  assumes "session_inv s"
  shows "session_inv (question_flow P qs ev s)"
proof (cases "shown_question qs s")
  case None
  then show ?thesis using assms by (simp add: question_flow_def Let_def)
next
  case (Some q)
  show ?thesis
  proof (cases ev)
    case (ClickResponder c')
    show ?thesis
    proof (cases "responder_disabled q (clamp_index qs s)")
      case True
      then show ?thesis using Some ClickResponder assms by (simp add: question_flow_def Let_def)
    next
      case False
      have "session_inv (submit P q c' (clamp_index qs s))"
        by (rule session_inv_submit [OF _ False]) (simp add: assms)
      then show ?thesis using Some ClickResponder False by (simp add: question_flow_def Let_def)
    qed
  qed (use Some assms in \<open>simp_all add: question_flow_def Let_def\<close>)
qed

lemma session_inv_script_run:
  assumes "session_inv s"
  shows "session_inv (script_run P qs ev s)"
proof (cases "mode s \<in> set known_modes")
  case False
  then show ?thesis using assms by (simp add: script_run_def)
next
  case True
  then show ?thesis
    using assms
    by (cases ev) (simp_all add: script_run_def Let_def session_inv_question_flow session_inv_reset)
qed

lemma reachable_session_inv: "reachable P qs s \<Longrightarrow> session_inv s"
  by (induction rule: reachable.induct) (auto intro: session_inv_init session_inv_script_run)

lemma reachable_run: "reachable P qs s \<Longrightarrow> reachable P qs (run P qs es s)"
  by (induction es arbitrary: s) (auto intro: reachable_step)

section \<open>The example sessions, evaluated\<close>

lemma ex_bank_list:
  "ex_bank = [ex_q1\<lparr>lote_id := 1\<rparr>, ex_q2\<lparr>lote_id := 1\<rparr>, ex_q3\<lparr>lote_id := 1\<rparr>]"
  by (simp add: ex_bank_def flatten_questions_def)

lemma ex_letters:
  "get_correct_letter ascii_text (ex_q1\<lparr>lote_id := 1\<rparr>) = ''A''"
  "get_correct_letter ascii_text (ex_q2\<lparr>lote_id := 1\<rparr>) = ''B''"
  "get_correct_letter ascii_text (ex_q3\<lparr>lote_id := 1\<rparr>) = ''C''"
  by code_simp+

lemma ex_state_value:
  "ex_state = \<lparr>mode = ''full'', show_correct_between = False, current_index = 2,
     answers = [(1, \<lparr>attempts = 1, correct = True, selected = Some ''A'', answer_lote_id = 1\<rparr>),
                (2, \<lparr>attempts = 1, correct = False, selected = Some ''A'', answer_lote_id = 1\<rparr>)],
     locked = {2}, last_feedback = None\<rparr>"
  by code_simp

lemma ex_done_value:
  "ex_done = \<lparr>mode = ''full'', show_correct_between = False, current_index = 2,
     answers = [(1, \<lparr>attempts = 1, correct = True, selected = Some ''A'', answer_lote_id = 1\<rparr>),
                (2, \<lparr>attempts = 1, correct = True, selected = Some ''B'', answer_lote_id = 1\<rparr>),
                (3, \<lparr>attempts = 1, correct = True, selected = Some ''C'', answer_lote_id = 1\<rparr>)],
     locked = {}, last_feedback = None\<rparr>"
  by code_simp

lemma reachable_ex_state: "reachable ascii_text ex_bank ex_state"
  unfolding ex_state_def by (rule reachable_run [OF reachable_init])

section \<open>Submitting an answer\<close>

text \<open>
  C1: for a question that is not yet correct (no record, or a record with
  \<open>correct = False\<close>) and not locked, the Responder button is enabled and the handler
  stores a record whose attempts are the former ones (0 without a record) plus 1 and
  whose selection is the submitted letter. If the letter is the correct one the record
  is correct and the locked set is unchanged, so the question is not in it; otherwise the
  record stays incorrect and the question's number is added to the locked set. Either
  way the handler moves \<open>current_index\<close> on by one (the next run clamps it to the list).
\<close>

theorem submit_not_yet_correct:
  assumes "\<not> get_correct (map_of (answers s) (q_n q))" and "q_n q \<notin> locked s"
  shows "\<not> responder_disabled q s \<and>
    (\<exists>a. map_of (answers (submit P q c s)) (q_n q) = Some a \<and>
       attempts a = get_attempts (map_of (answers s) (q_n q)) + 1 \<and>
       selected a = Some c \<and>
       (if c = get_correct_letter P q
        then correct a \<and> q_n q \<notin> locked (submit P q c s) \<and> locked (submit P q c s) = locked s
        else \<not> correct a \<and> q_n q \<in> locked (submit P q c s) \<and>
             locked (submit P q c s) = insert (q_n q) (locked s))) \<and>
    current_index (submit P q c s) = current_index s + 1"
proof -
  from assms(1) have nc: "\<not> correct (prior_record q s)"
    by (simp add: get_correct_def prior_record_def split: option.splits)
  have ga: "get_attempts (map_of (answers s) (q_n q)) = attempts (prior_record q s)"
    by (simp add: get_attempts_def prior_record_def split: option.splits)
  show ?thesis
    using assms nc
    by (simp add: answers_submit locked_submit current_index_submit ga responder_disabled_def)
qed

theorem submit_not_yet_correct_witness:
  "\<not> get_correct (map_of (answers init_state) (q_n (ex_q2\<lparr>lote_id := 1\<rparr>))) \<and>
   q_n (ex_q2\<lparr>lote_id := 1\<rparr>) \<notin> locked init_state \<and>
   (\<exists>a. map_of (answers (submit ascii_text (ex_q2\<lparr>lote_id := 1\<rparr>) ''A'' init_state)) 2 = Some a \<and>
      attempts a = 1 \<and> selected a = Some ''A'' \<and> \<not> correct a) \<and>
   2 \<in> locked (submit ascii_text (ex_q2\<lparr>lote_id := 1\<rparr>) ''A'' init_state) \<and>
   current_index (submit ascii_text (ex_q2\<lparr>lote_id := 1\<rparr>) ''A'' init_state) = 1"
proof -
  have h1: "\<not> get_correct (map_of (answers init_state) (q_n (ex_q2\<lparr>lote_id := 1\<rparr>)))"
    by (simp add: init_state_def get_correct_def)
  have h2: "q_n (ex_q2\<lparr>lote_id := 1\<rparr>) \<notin> locked init_state"
    by (simp add: init_state_def)
  have n: "q_n (ex_q2\<lparr>lote_id := 1\<rparr>) = 2"
    by (simp add: ex_q2_def)
  have g: "get_attempts (map_of (answers init_state) 2) = 0"
    by (simp add: init_state_def get_attempts_def)
  have i: "current_index init_state = 0"
    by (simp add: init_state_def)
  from submit_not_yet_correct [OF h1 h2, where P = ascii_text and c = "''A''"] h1 h2
  show ?thesis
    by (auto simp add: ex_letters n g i)
qed

text \<open>
  C5: for a question whose record is already correct, the Responder button is enabled
  and a further submission with any letter stores the same record with only the
  selection replaced by that letter: attempts are not incremented, the record stays
  correct, and the locked set is unchanged.
\<close>

theorem submit_already_correct:
  assumes "map_of (answers s) (q_n q) = Some a" and "correct a"
  shows "\<not> responder_disabled q s \<and>
    map_of (answers (submit P q c s)) (q_n q) = Some (a\<lparr>selected := Some c\<rparr>) \<and>
    attempts (a\<lparr>selected := Some c\<rparr>) = attempts a \<and>
    correct (a\<lparr>selected := Some c\<rparr>) \<and>
    selected (a\<lparr>selected := Some c\<rparr>) = Some c \<and>
    locked (submit P q c s) = locked s"
proof -
  from assms have "prior_record q s = a" by (simp add: prior_record_def)
  with assms show ?thesis
    by (simp add: answers_submit locked_submit responder_disabled_def get_correct_def)
qed

theorem submit_already_correct_witness:
  "map_of (answers ex_state) (q_n (ex_q1\<lparr>lote_id := 1\<rparr>)) =
     Some \<lparr>attempts = 1, correct = True, selected = Some ''A'', answer_lote_id = 1\<rparr> \<and>
   map_of (answers (submit ascii_text (ex_q1\<lparr>lote_id := 1\<rparr>) ''C'' ex_state)) 1 =
     Some \<lparr>attempts = 1, correct = True, selected = Some ''C'', answer_lote_id = 1\<rparr> \<and>
   locked (submit ascii_text (ex_q1\<lparr>lote_id := 1\<rparr>) ''C'' ex_state) = {2}"
proof -
  have h: "map_of (answers ex_state) (q_n (ex_q1\<lparr>lote_id := 1\<rparr>)) =
      Some \<lparr>attempts = 1, correct = True, selected = Some ''A'', answer_lote_id = 1\<rparr>"
    by (simp add: ex_state_value ex_q1_def)
  have c: "correct \<lparr>attempts = 1, correct = True, selected = Some ''A'', answer_lote_id = 1\<rparr>"
    by simp
  have n: "q_n (ex_q1\<lparr>lote_id := 1\<rparr>) = 1"
    by (simp add: ex_q1_def)
  have l: "locked ex_state = {2}"
    by (simp add: ex_state_value)
  from submit_already_correct [OF h c, where P = ascii_text and c = "''C''"] h
  show ?thesis
    by (simp add: n l)
qed

section \<open>The locked set and the stored records\<close>

text \<open>
  C2: in every state a session reaches, a question number is locked if and only if
  \<open>answers\<close> holds a record for it with at least one attempt and \<open>correct = False\<close>;
  and whatever the next interaction is (answer, previous, next, mode change, display
  switch, reset, plain rerun), the state after it satisfies the same equivalence.
\<close>

theorem locked_iff_failed_record:
  assumes "reachable P qs s"
  shows "(is_locked s k \<longleftrightarrow>
           (\<exists>a. map_of (answers s) k = Some a \<and> 1 \<le> attempts a \<and> \<not> correct a)) \<and>
         locked_agrees (script_run P qs ev s)"
proof -
  have "session_inv s" "session_inv (script_run P qs ev s)"
    using assms by (auto intro: reachable_session_inv reachable_step)
  then show ?thesis
    by (simp add: session_inv_def locked_agrees_def is_locked_def del: map_of_eq_Some_iff)
qed

theorem locked_iff_failed_record_witness:
  "reachable ascii_text ex_bank ex_state \<and> is_locked ex_state 2 \<and> \<not> is_locked ex_state 1 \<and>
   (\<exists>a. map_of (answers ex_state) 2 = Some a \<and> 1 \<le> attempts a \<and> \<not> correct a) \<and>
   locked_agrees (script_run ascii_text ex_bank ClickAnterior ex_state)"
proof -
  have l: "is_locked ex_state 2" "\<not> is_locked ex_state 1"
    by (simp_all add: ex_state_value is_locked_def)
  from locked_iff_failed_record [OF reachable_ex_state, of 2 ClickAnterior] l reachable_ex_state
  show ?thesis by simp
qed

text \<open>
  C10: in every state a session reaches, every record stored in \<open>answers\<close> has at least
  one attempt; the keys are distinct, so the length of \<open>answers\<close> is the number of
  records, the attempted count of \<open>totals\<close> equals it, and the wrong count (attempted
  minus correct) is not negative.
\<close>

theorem stored_records_attempted:
  assumes "reachable P qs s"
  shows "(\<forall>(k, a) \<in> set (answers s). 1 \<le> attempts a) \<and>
         distinct (map fst (answers s)) \<and>
         t_attempted (totals qs s) = int (length (answers s)) \<and>
         t_wrong (totals qs s) = t_attempted (totals qs s) - t_correct (totals qs s) \<and>
         0 \<le> t_wrong (totals qs s)"
proof -
  from assms have inv: "session_inv s" by (rule reachable_session_inv)
  then have d: "distinct (map fst (answers s))" by (simp add: session_inv_def)
  have att: "1 \<le> attempts a" if "(k, a) \<in> set (answers s)" for k a
  proof -
    from d that have "map_of (answers s) k = Some a" by simp
    with inv show ?thesis unfolding session_inv_def by blast
  qed
  then have all: "filter (\<lambda>(k, a). 1 \<le> attempts a) (answers s) = answers s"
    by (auto simp: filter_id_conv)
  have "length (filter (\<lambda>(k, a). correct a) (answers s)) \<le> length (answers s)"
    by (rule length_filter_le)
  with all d att show ?thesis
    by (auto simp: totals_def Let_def)
qed

theorem stored_records_attempted_witness:
  "reachable ascii_text ex_bank ex_state \<and> t_attempted (totals ex_bank ex_state) = 2 \<and>
   t_wrong (totals ex_bank ex_state) = 1 \<and>
   distinct (map fst (answers ex_state))"
proof -
  have "length (answers ex_state) = 2" by (simp add: ex_state_value)
  moreover have "t_wrong (totals ex_bank ex_state) = 1"
    by (simp add: ex_state_value totals_def)
  ultimately show ?thesis
    using stored_records_attempted [OF reachable_ex_state] reachable_ex_state by simp
qed

section \<open>A failed question stays locked until the reset\<close>

lemma question_flow_keeps_failed:
  assumes lk: "k \<in> locked s" and nc: "\<not> get_correct (map_of (answers s) k)"
  shows "map_of (answers (question_flow P qs ev s)) k = map_of (answers s) k \<and>
         k \<in> locked (question_flow P qs ev s)"
proof (cases "shown_question qs s")
  case None
  then show ?thesis using lk by (simp add: question_flow_def Let_def)
next
  case (Some q)
  show ?thesis
  proof (cases ev)
    case (ClickResponder c)
    show ?thesis
    proof (cases "q_n q = k")
      case True
      with lk nc have "responder_disabled q (clamp_index qs s)"
        by (simp add: responder_disabled_def)
      then show ?thesis using Some ClickResponder lk by (simp add: question_flow_def Let_def)
    next
      case False
      then show ?thesis using Some ClickResponder lk
        by (simp add: question_flow_def Let_def answers_submit locked_submit)
    qed
  qed (use Some lk in \<open>simp_all add: question_flow_def Let_def\<close>)
qed

lemma script_run_keeps_failed:
  assumes "ev \<noteq> ClickReset" and "k \<in> locked s" and "\<not> get_correct (map_of (answers s) k)"
  shows "map_of (answers (script_run P qs ev s)) k = map_of (answers s) k \<and>
         k \<in> locked (script_run P qs ev s)"
proof (cases "mode s \<in> set known_modes")
  case False
  then show ?thesis using assms by (simp add: script_run_def)
next
  case True
  then show ?thesis
    using assms
    by (cases ev) (simp_all add: script_run_def Let_def question_flow_keeps_failed)
qed

lemma run_keeps_failed:
  assumes "ClickReset \<notin> set es" and "k \<in> locked s" and "\<not> get_correct (map_of (answers s) k)"
  shows "map_of (answers (run P qs es s)) k = map_of (answers s) k \<and> k \<in> locked (run P qs es s)"
  using assms
proof (induction es arbitrary: s)
  case Nil
  then show ?case by simp
next
  case (Cons ev es)
  from Cons.prems have ev: "ev \<noteq> ClickReset" and es: "ClickReset \<notin> set es" by auto
  from script_run_keeps_failed [OF ev Cons.prems(2,3), where P = P and qs = qs]
  have 1: "map_of (answers (script_run P qs ev s)) k = map_of (answers s) k"
    and 2: "k \<in> locked (script_run P qs ev s)" by auto
  from 1 Cons.prems(3) have 3: "\<not> get_correct (map_of (answers (script_run P qs ev s)) k)"
    by simp
  from Cons.IH [OF es 2 3] 1 show ?case by simp
qed

lemma responder_on_failed_is_idle:
  assumes "shown_question qs s = Some q" and "q_n q \<in> locked s"
    and "\<not> get_correct (map_of (answers s) (q_n q))"
  shows "script_run P qs (ClickResponder c) s = idle_run qs s"
proof (cases "mode s \<in> set known_modes")
  case False
  then show ?thesis by (simp add: script_run_def idle_run_def)
next
  case True
  from assms(2,3) have "responder_disabled q (clamp_index qs s)"
    by (simp add: responder_disabled_def)
  with True assms(1) show ?thesis
    by (simp add: script_run_def question_flow_def Let_def idle_run_def)
qed

text \<open>
  C3: let question \<open>q\<close> be on display, not yet correct and not locked, and let a wrong
  letter be submitted for it. Then its number is locked, and after any further
  interactions that do not include the reset it is still locked and its record is the
  one that submission stored. Whenever a question with that number is on display then,
  clicking Responder with any letter does what a run with no interaction does: the
  submission is not accepted, and \<open>answers\<close> and the locked set stay as they are.
\<close>

theorem failed_question_stays_locked:
  assumes shown: "shown_question qs s = Some q" and known: "mode s \<in> set known_modes"
    and notyet: "\<not> get_correct (map_of (answers s) (q_n q))"
    and unlocked: "q_n q \<notin> locked s"
    and wrong: "c \<noteq> get_correct_letter P q"
    and noreset: "ClickReset \<notin> set es"
  shows "is_locked (script_run P qs (ClickResponder c) s) (q_n q) \<and>
     is_locked (run P qs es (script_run P qs (ClickResponder c) s)) (q_n q) \<and>
     map_of (answers (run P qs es (script_run P qs (ClickResponder c) s))) (q_n q) =
       map_of (answers (script_run P qs (ClickResponder c) s)) (q_n q) \<and>
     (\<forall>q' c'. shown_question qs (run P qs es (script_run P qs (ClickResponder c) s)) = Some q' \<and>
         q_n q' = q_n q \<longrightarrow>
         script_run P qs (ClickResponder c') (run P qs es (script_run P qs (ClickResponder c) s)) =
           idle_run qs (run P qs es (script_run P qs (ClickResponder c) s)) \<and>
         answers (script_run P qs (ClickResponder c')
                    (run P qs es (script_run P qs (ClickResponder c) s))) =
           answers (run P qs es (script_run P qs (ClickResponder c) s)) \<and>
         locked (script_run P qs (ClickResponder c')
                   (run P qs es (script_run P qs (ClickResponder c) s))) =
           locked (run P qs es (script_run P qs (ClickResponder c) s)))"
proof -
  let ?s1 = "script_run P qs (ClickResponder c) s"
  let ?s2 = "run P qs es ?s1"
  from notyet have nc: "\<not> correct (prior_record q s)"
    by (simp add: get_correct_def prior_record_def split: option.splits)
  have en: "\<not> responder_disabled q (clamp_index qs s)"
    using unlocked by (simp add: responder_disabled_def)
  have s1: "?s1 = idle_run qs (submit P q c (clamp_index qs s))"
    using shown known en by (simp add: script_run_def question_flow_def Let_def)
  have pr: "prior_record q (clamp_index qs s) = prior_record q s"
    by (simp add: prior_record_def)
  have l1: "q_n q \<in> locked ?s1"
    using nc wrong by (simp add: s1 locked_submit pr)
  have c1: "\<not> get_correct (map_of (answers ?s1) (q_n q))"
    using nc wrong by (simp add: s1 answers_submit pr get_correct_def)
  from run_keeps_failed [OF noreset l1 c1, where P = P and qs = qs]
  have m2: "map_of (answers ?s2) (q_n q) = map_of (answers ?s1) (q_n q)"
    and l2: "q_n q \<in> locked ?s2" by auto
  from m2 c1 have c2: "\<not> get_correct (map_of (answers ?s2) (q_n q))" by simp
  have "script_run P qs (ClickResponder c') ?s2 = idle_run qs ?s2"
    if "shown_question qs ?s2 = Some q'" "q_n q' = q_n q" for q' c'
    using responder_on_failed_is_idle [OF that(1)] that(2) l2 c2 by simp
  with l1 l2 m2 show ?thesis
    by (simp add: is_locked_def)
qed

theorem failed_question_stays_locked_witness:
  "shown_question ex_bank init_state = Some (ex_q1\<lparr>lote_id := 1\<rparr>) \<and>
   mode init_state \<in> set known_modes \<and>
   \<not> get_correct (map_of (answers init_state) (q_n (ex_q1\<lparr>lote_id := 1\<rparr>))) \<and>
   q_n (ex_q1\<lparr>lote_id := 1\<rparr>) \<notin> locked init_state \<and>
   ''B'' \<noteq> get_correct_letter ascii_text (ex_q1\<lparr>lote_id := 1\<rparr>) \<and>
   ClickReset \<notin> set [ClickAnterior, ClickResponder ''A'', SelectMode Revision] \<and>
   shown_question ex_bank ex_locked = Some (ex_q1\<lparr>lote_id := 1\<rparr>) \<and>
   is_locked ex_locked 1 \<and>
   script_run ascii_text ex_bank (ClickResponder ''A'') ex_locked = idle_run ex_bank ex_locked \<and>
   answers (script_run ascii_text ex_bank (ClickResponder ''A'') ex_locked) = answers ex_locked \<and>
   locked (script_run ascii_text ex_bank (ClickResponder ''A'') ex_locked) = locked ex_locked"
proof -
  have h1: "shown_question ex_bank init_state = Some (ex_q1\<lparr>lote_id := 1\<rparr>)"
    by code_simp
  have h2: "mode init_state \<in> set known_modes"
    by (simp add: init_state_def known_modes_def)
  have h3: "\<not> get_correct (map_of (answers init_state) (q_n (ex_q1\<lparr>lote_id := 1\<rparr>)))"
    by (simp add: init_state_def get_correct_def)
  have h4: "q_n (ex_q1\<lparr>lote_id := 1\<rparr>) \<notin> locked init_state"
    by (simp add: init_state_def)
  have h5: "''B'' \<noteq> get_correct_letter ascii_text (ex_q1\<lparr>lote_id := 1\<rparr>)"
    by (simp add: ex_letters)
  have h6: "ClickReset \<notin> set [ClickAnterior, ClickResponder ''A'', SelectMode Revision]"
    by simp
  have h7: "shown_question ex_bank ex_locked = Some (ex_q1\<lparr>lote_id := 1\<rparr>)"
    by code_simp
  have n: "q_n (ex_q1\<lparr>lote_id := 1\<rparr>) = 1"
    by (simp add: ex_q1_def)
  from failed_question_stays_locked [OF h1 h2 h3 h4 h5 h6] h7
  have "is_locked ex_locked 1 \<and>
     script_run ascii_text ex_bank (ClickResponder ''A'') ex_locked = idle_run ex_bank ex_locked \<and>
     answers (script_run ascii_text ex_bank (ClickResponder ''A'') ex_locked) = answers ex_locked \<and>
     locked (script_run ascii_text ex_bank (ClickResponder ''A'') ex_locked) = locked ex_locked"
    unfolding ex_locked_def [symmetric] n using n by blast
  with h1 h2 h3 h4 h5 h6 h7 show ?thesis by blast
qed

section \<open>The correct letter\<close>

text \<open>
  C4, as amended: whatever \<^verbatim>\<open>strip\<close>, \<^verbatim>\<open>upper\<close> and \<^verbatim>\<open>lower\<close> are, the
  result of \<open>get_correct_letter\<close> is one of A, B, C; and when upper and lower case
  agree on the letters A, B, C (\<open>letters_fold_alike\<close>, which Python's builtins
  satisfy), \<open>get_correct_letter\<close> is \<open>guarded_letter\<close>. If \<^verbatim>\<open>correcta\<close> is a
  string equal to A, B or C up to case and surrounding white space, the result is that
  letter in upper case; otherwise it is the first letter among A, B, C whose option
  value is truthy (present and not empty) and whose text equals \<^verbatim>\<open>correcta\<close> up to
  case and surrounding white space; otherwise, and whenever \<^verbatim>\<open>correcta\<close> is not a
  string, it is A.
\<close>

theorem get_correct_letter_guarded:
  "(letters_fold_alike P \<longrightarrow> get_correct_letter P q = guarded_letter P q) \<and>
   get_correct_letter P q \<in> {''A'', ''B'', ''C''}"
proof (intro conjI impI)
  assume fold: "letters_fold_alike P"
  show "get_correct_letter P q = guarded_letter P q"
  proof (cases "correcta q")
    case (PStr corr)
    then show ?thesis
      by (simp add: get_correct_letter_def guarded_letter_def Let_def
          ci_equal_A [OF fold] ci_equal_B [OF fold] ci_equal_C [OF fold] text_matches_truthy)
  qed (simp_all add: get_correct_letter_def guarded_letter_def)
next
  show "get_correct_letter P q \<in> {''A'', ''B'', ''C''}"
    by (rule get_correct_letter_range)
qed

theorem get_correct_letter_guarded_witness:
  "letters_fold_alike ascii_text \<and>
   get_correct_letter ascii_text (ex_q3\<lparr>lote_id := 1\<rparr>) = ''C'' \<and>
   guarded_letter ascii_text (ex_q3\<lparr>lote_id := 1\<rparr>) = ''C'' \<and>
   guarded_letter ascii_text ex_q_empty = ''A''"
proof -
  have "get_correct_letter ascii_text ex_q_empty = ''A''"
    by code_simp
  with get_correct_letter_guarded [of ascii_text "ex_q3\<lparr>lote_id := 1\<rparr>"]
    get_correct_letter_guarded [of ascii_text ex_q_empty] letters_fold_alike_ascii
  show ?thesis by (simp add: ex_letters)
qed

text \<open>
  The reference algorithm as the specification words it gives B for the question whose
  option B is the empty string and whose \<^verbatim>\<open>correcta\<close> is empty: the text of B equals
  \<^verbatim>\<open>correcta\<close>. The function skips the empty option and falls back to A. The texts
  of this question are ASCII, where \<open>ascii_text\<close> is what the builtins do.
\<close>

theorem get_correct_letter_not_reference:
  "get_correct_letter ascii_text ex_q_empty = ''A'' \<and>
   reference_letter ascii_text ex_q_empty = ''B'' \<and>
   get_correct_letter ascii_text ex_q_empty \<noteq> reference_letter ascii_text ex_q_empty"
  by code_simp

section \<open>Questions of a mode\<close>

lemma failed_ids_iff:
  "k \<in> set (failed_ids s) \<longleftrightarrow>
     (\<exists>a. (k, a) \<in> set (answers s) \<and> 1 \<le> attempts a \<and> \<not> correct a)"
  by (force simp: failed_ids_def)

text \<open>
  C6: in review mode the result is the bank filtered, in bank order, by: the question's
  number has a record in \<open>answers\<close> with at least one attempt and \<open>correct = False\<close>.
  So for a bank question whose number has the record \<open>a\<close> (keys being distinct, as in a
  dict), the question is in the result exactly if \<open>a\<close> is attempted and incorrect: one
  answered correctly is left out, one answered incorrectly is in. With no record at all
  (after a reset) the result is the empty list, an ordinary value.
\<close>

theorem review_mode_questions:
  "get_questions_for_mode qs s ''review'' =
     filter (\<lambda>q. \<exists>a. (q_n q, a) \<in> set (answers s) \<and> 1 \<le> attempts a \<and> \<not> correct a) qs \<and>
   (q \<in> set qs \<and> distinct (map fst (answers s)) \<and> map_of (answers s) (q_n q) = Some r \<longrightarrow>
      (q \<in> set (get_questions_for_mode qs s ''review'') \<longleftrightarrow> 1 \<le> attempts r \<and> \<not> correct r)) \<and>
   get_questions_for_mode qs (reset_results s) ''review'' = []"
proof (intro conjI impI)
  show eq: "get_questions_for_mode qs s ''review'' =
     filter (\<lambda>q. \<exists>a. (q_n q, a) \<in> set (answers s) \<and> 1 \<le> attempts a \<and> \<not> correct a) qs"
    by (simp add: get_questions_for_mode_def failed_ids_iff)
  show "get_questions_for_mode qs (reset_results s) ''review'' = []"
    by (simp add: get_questions_for_mode_def reset_results_def failed_ids_def)
  assume a: "q \<in> set qs \<and> distinct (map fst (answers s)) \<and> map_of (answers s) (q_n q) = Some r"
  then have "(q_n q, a') \<in> set (answers s) \<longleftrightarrow> a' = r" for a'
    by auto
  with a show "q \<in> set (get_questions_for_mode qs s ''review'') \<longleftrightarrow>
      1 \<le> attempts r \<and> \<not> correct r"
    by (simp add: eq)
qed

theorem review_mode_questions_witness:
  "get_questions_for_mode ex_bank ex_state ''review'' = [ex_q2\<lparr>lote_id := 1\<rparr>] \<and>
   ex_q1\<lparr>lote_id := 1\<rparr> \<in> set ex_bank \<and> distinct (map fst (answers ex_state)) \<and>
   map_of (answers ex_state) (q_n (ex_q1\<lparr>lote_id := 1\<rparr>)) =
     Some \<lparr>attempts = 1, correct = True, selected = Some ''A'', answer_lote_id = 1\<rparr> \<and>
   ex_q1\<lparr>lote_id := 1\<rparr> \<notin> set (get_questions_for_mode ex_bank ex_state ''review'')"
proof -
  have h:
    "ex_q1\<lparr>lote_id := 1\<rparr> \<in> set ex_bank \<and> distinct (map fst (answers ex_state)) \<and>
     map_of (answers ex_state) (q_n (ex_q1\<lparr>lote_id := 1\<rparr>)) =
       Some \<lparr>attempts = 1, correct = True, selected = Some ''A'', answer_lote_id = 1\<rparr>"
    by (simp add: ex_bank_list ex_state_value ex_q1_def)
  have v: "filter (\<lambda>q. \<exists>a. (q_n q, a) \<in> set (answers ex_state) \<and> 1 \<le> attempts a \<and> \<not> correct a)
      ex_bank = [ex_q2\<lparr>lote_id := 1\<rparr>]"
    by (simp add: ex_bank_list ex_state_value ex_q1_def ex_q2_def ex_q3_def)
  from review_mode_questions [of ex_bank ex_state "ex_q1\<lparr>lote_id := 1\<rparr>"
      "\<lparr>attempts = 1, correct = True, selected = Some ''A'', answer_lote_id = 1\<rparr>"] h v
  show ?thesis by (simp add: ex_q1_def ex_q2_def)
qed

text \<open>
  C9, as amended: for every mode value outside \<open>full\<close>, \<open>lote1\<close>, \<open>lote2\<close>, \<open>lote3\<close>
  and \<open>review\<close>, \<open>get_questions_for_mode\<close> returns the empty list of questions. It has
  no failing branch.
\<close>

theorem unknown_mode_no_questions:
  assumes "m \<notin> set known_modes"
  shows "get_questions_for_mode qs s m = []"
  using assms by (simp add: get_questions_for_mode_def known_modes_def)

theorem unknown_mode_no_questions_witness:
  "''batch-1'' \<notin> set known_modes \<and> get_questions_for_mode ex_bank ex_state ''batch-1'' = []"
proof -
  have h: "''batch-1'' \<notin> set known_modes" by (simp add: known_modes_def)
  from unknown_mode_no_questions [OF h] h show ?thesis by simp
qed

text \<open>
  On the bank of three questions the unknown mode \<open>lote4\<close> is answered with the empty
  list, the same value review mode gives when nothing has failed, and not with an error.
\<close>

theorem unknown_mode_returns_empty_list:
  "get_questions_for_mode ex_bank init_state ''lote4'' = [] \<and>
   get_questions_for_mode ex_bank init_state ''lote4'' =
     get_questions_for_mode ex_bank init_state ''review''"
  by code_simp

section \<open>Batches and the reset\<close>

text \<open>
  C7: a batch is completed if and only if the bank has at least one question with that
  batch id and every such question has a record with \<open>correct = True\<close>; for a batch id
  that no question of the bank carries it is not completed.
\<close>

theorem is_lot_completed_iff:
  "(is_lot_completed qs s k \<longleftrightarrow>
     (\<exists>q \<in> set qs. lote_id q = k) \<and>
     (\<forall>q \<in> set qs. lote_id q = k \<longrightarrow>
        (\<exists>a. map_of (answers s) (q_n q) = Some a \<and> correct a))) \<and>
   ((\<forall>q \<in> set qs. lote_id q \<noteq> k) \<longrightarrow> \<not> is_lot_completed qs s k)"
  by (auto simp: is_lot_completed_def Let_def filter_empty_conv list_all_iff get_correct_def
      simp del: map_of_eq_Some_iff split: option.splits)

theorem is_lot_completed_iff_witness:
  "is_lot_completed ex_bank ex_done 1 \<and> \<not> is_lot_completed ex_bank ex_state 1 \<and>
   \<not> is_lot_completed ex_bank ex_done 2"
proof -
  have a: "(\<exists>q \<in> set ex_bank. lote_id q = 1) \<and>
     (\<forall>q \<in> set ex_bank. lote_id q = 1 \<longrightarrow>
        (\<exists>a. map_of (answers ex_done) (q_n q) = Some a \<and> correct a))"
    by (simp add: ex_bank_list ex_done_value ex_q1_def ex_q2_def ex_q3_def)
  have b: "\<not> (\<forall>q \<in> set ex_bank. lote_id q = 1 \<longrightarrow>
        (\<exists>a. map_of (answers ex_state) (q_n q) = Some a \<and> correct a))"
    by (simp add: ex_bank_list ex_state_value ex_q1_def ex_q2_def ex_q3_def)
  have c: "\<forall>q \<in> set ex_bank. lote_id q \<noteq> 2"
    by (simp add: ex_bank_list)
  from is_lot_completed_iff [of ex_bank ex_done 1] is_lot_completed_iff [of ex_bank ex_state 1]
    is_lot_completed_iff [of ex_bank ex_done 2] a b c
  show ?thesis by blast
qed

text \<open>
  C8: after \<open>reset_results\<close> the answers are empty, so the attempted and correct counts
  of \<open>totals\<close> are 0; the locked set is empty, so no number is locked; \<open>current_index\<close>
  is 0 and \<open>last_feedback\<close> is cleared; \<open>mode\<close> and \<open>show_correct_between\<close> are as
  before.
\<close>

theorem reset_results_clears:
  "answers (reset_results s) = [] \<and> locked (reset_results s) = {} \<and>
   current_index (reset_results s) = 0 \<and> last_feedback (reset_results s) = None \<and>
   mode (reset_results s) = mode s \<and>
   show_correct_between (reset_results s) = show_correct_between s \<and>
   t_attempted (totals qs (reset_results s)) = 0 \<and>
   t_correct (totals qs (reset_results s)) = 0 \<and>
   (\<forall>k. \<not> is_locked (reset_results s) k)"
  by (simp add: reset_results_def totals_def is_locked_def)

theorem reset_results_clears_witness:
  "is_locked ex_state 2 \<and> \<not> is_locked (reset_results ex_state) 2 \<and>
   t_attempted (totals ex_bank ex_state) = 2 \<and>
   t_attempted (totals ex_bank (reset_results ex_state)) = 0 \<and>
   mode (reset_results ex_state) = ''full''"
proof -
  have "is_locked ex_state 2" "t_attempted (totals ex_bank ex_state) = 2" "mode ex_state = ''full''"
    by (simp_all add: ex_state_value is_locked_def totals_def)
  with reset_results_clears [of ex_state ex_bank] show ?thesis by simp
qed

end
